theory Spec2Isabelle
  imports Main "HOL-Library.Char_ord"
begin

section \<open>JavaScript values, strings and errors\<close>

text \<open>
  The functions of the repository take one argument of any JavaScript type. The code looks
  at the argument through \<^verbatim>\<open>=== undefined\<close>, \<^verbatim>\<open>=== null\<close> and \<^verbatim>\<open>typeof\<close> only, and at
  its characters when it is a string. A string is a list of code units; \<^typ>\<open>char\<close> holds
  the code units 0 to 255. Every character class of the source is a range of ASCII
  letters and digits, so every code unit from 128 on is outside \<^verbatim>\<open>[a-z]\<close>, \<^verbatim>\<open>[A-Z]\<close> and
  \<^verbatim>\<open>[0-9]\<close>. Code units from 256 on are not represented; camelCase, dotCase and the
  toKebabCase beside them treat them as they treat 128 to 255, as separators. The payload
  of a number, a boolean or an array is never read.
\<close>

datatype js_value =
    JSUndefined
  | JSNull
  | JSBoolean bool
  | JSNumber int
  | JSString string
  | JSArray "js_value list"

fun typeof :: "js_value \<Rightarrow> string" where
  "typeof JSUndefined = ''undefined''"
| "typeof JSNull = ''object''"
| "typeof (JSBoolean b) = ''boolean''"
| "typeof (JSNumber n) = ''number''"
| "typeof (JSString s) = ''string''"
| "typeof (JSArray vs) = ''object''"

text \<open>The characters of a value that passed the \<^verbatim>\<open>typeof input !== 'string'\<close> guard.\<close>

fun chars_of :: "js_value \<Rightarrow> string" where
  "chars_of (JSString s) = s"
| "chars_of _ = []"

text \<open>\<^verbatim>\<open>throw new Error(message)\<close>: the only error of the repository.\<close>

datatype js_error = Error string

section \<open>Character classes and case mapping\<close>

definition cls_upper :: "char \<Rightarrow> bool" where
  \<comment> \<open>\<^verbatim>\<open>[A-Z]\<close>\<close>
  "cls_upper c = (CHR ''A'' \<le> c \<and> c \<le> CHR ''Z'')"

definition cls_lower :: "char \<Rightarrow> bool" where
  \<comment> \<open>\<^verbatim>\<open>[a-z]\<close>\<close>
  "cls_lower c = (CHR ''a'' \<le> c \<and> c \<le> CHR ''z'')"

definition cls_digit :: "char \<Rightarrow> bool" where
  \<comment> \<open>\<^verbatim>\<open>[0-9]\<close>\<close>
  "cls_digit c = (CHR ''0'' \<le> c \<and> c \<le> CHR ''9'')"

definition cls_lower_digit :: "char \<Rightarrow> bool" where
  \<comment> \<open>\<^verbatim>\<open>[a-z0-9]\<close>\<close>
  "cls_lower_digit c = (cls_lower c \<or> cls_digit c)"

definition cls_non_alnum :: "char \<Rightarrow> bool" where
  \<comment> \<open>\<^verbatim>\<open>[^a-zA-Z0-9]\<close>; also \<^verbatim>\<open>[^a-z0-9]\<close> under the flag \<^verbatim>\<open>i\<close>, which folds the case of
      ASCII letters only\<close>
  "cls_non_alnum c = (\<not> (cls_lower c \<or> cls_upper c \<or> cls_digit c))"

definition cls_space :: "char \<Rightarrow> bool" where
  \<comment> \<open>\<^verbatim>\<open>\s\<close>, and what \<^verbatim>\<open>trim\<close> strips: tab, line feed, vertical tab, form feed, carriage
      return, space, no-break space (the white space among the code units below 256)\<close>
  "cls_space c = (c \<in> {CHR 0x09, CHR 0x0A, CHR 0x0B, CHR 0x0C, CHR 0x0D, CHR 0x20, CHR 0xA0})"

definition cls_space_underscore :: "char \<Rightarrow> bool" where
  \<comment> \<open>\<^verbatim>\<open>[\s_]\<close>\<close>
  "cls_space_underscore c = (cls_space c \<or> c = CHR ''_'')"

definition lower_char :: "char \<Rightarrow> char" where
  \<comment> \<open>A to Z, and the capital letters of Latin-1 (0xC0 to 0xDE without the sign 0xD7),
      move up by 32; every other code unit below 256 stays\<close>
  "lower_char c =
     (if cls_upper c \<or> (CHR 0xC0 \<le> c \<and> c \<le> CHR 0xDE \<and> c \<noteq> CHR 0xD7)
      then char_of (of_char c + (32::nat)) else c)"

definition upper_char :: "char \<Rightarrow> char" where
  \<comment> \<open>a to z move down by 32; digits and A to Z stay. The source upper-cases words of
      \<^verbatim>\<open>[a-zA-Z0-9]\<close> only (lemma \<open>camel_words_alnum\<close>), so no other code unit gets here\<close>
  "upper_char c = (if cls_lower c then char_of (of_char c - (32::nat)) else c)"

definition toLowerCase :: "string \<Rightarrow> string" where
  "toLowerCase s = map lower_char s"

definition toUpperCase :: "string \<Rightarrow> string" where
  "toUpperCase s = map upper_char s"

definition trim :: "string \<Rightarrow> string" where
  "trim s = rev (dropWhile cls_space (rev (dropWhile cls_space s)))"

section \<open>Regular expressions of the source\<close>

text \<open>
  None of the patterns looks behind or anchors, so whether a pattern matches at a position
  depends on the text from that position on. A pattern is modelled by its match at the
  start of a text: the number of characters matched, for \<^verbatim>\<open>replace\<close> together with the
  replacement text built from the groups; \<open>None\<close> when there is no match there.
\<close>

definition re_run :: "(char \<Rightarrow> bool) \<Rightarrow> string \<Rightarrow> nat option" where
  \<comment> \<open>\<^verbatim>\<open>[class]+\<close>, greedy: the longest run at the start, at least one character\<close>
  "re_run P s = (case takeWhile P s of [] \<Rightarrow> None | r \<Rightarrow> Some (length r))"

definition re_alt :: "(string \<Rightarrow> nat option) \<Rightarrow> (string \<Rightarrow> nat option) \<Rightarrow> string \<Rightarrow> nat option" where
  \<comment> \<open>\<^verbatim>\<open>A|B\<close>: the left alternative first\<close>
  "re_alt a b s = (case a s of Some n \<Rightarrow> Some n | None \<Rightarrow> b s)"

definition re_non_alnum :: "string \<Rightarrow> nat option" where
  \<comment> \<open>\<^verbatim>\<open>/[^a-zA-Z0-9]+/\<close>\<close>
  "re_non_alnum = re_run cls_non_alnum"

definition re_non_alnum_or_space :: "string \<Rightarrow> nat option" where
  \<comment> \<open>\<^verbatim>\<open>/[^a-zA-Z0-9]+|[\s_]+/\<close>\<close>
  "re_non_alnum_or_space = re_alt (re_run cls_non_alnum) (re_run cls_space_underscore)"

definition with_text :: "string \<Rightarrow> (string \<Rightarrow> nat option) \<Rightarrow> string \<Rightarrow> (nat \<times> string) option" where
  \<comment> \<open>a pattern without groups, replaced by a fixed text\<close>
  "with_text r m s = map_option (\<lambda>n. (n, r)) (m s)"

fun re_camel :: "string \<Rightarrow> (nat \<times> string) option" where
  \<comment> \<open>\<^verbatim>\<open>/([a-z0-9])([A-Z])/\<close> replaced by \<^verbatim>\<open>'$1 $2'\<close>\<close>
  "re_camel (a # b # cs) =
     (if cls_lower_digit a \<and> cls_upper b then Some (2, [a, CHR '' '', b]) else None)"
| "re_camel cs = None"

text \<open>
  \<^verbatim>\<open>/([A-Z]+)([A-Z][a-z0-9]+)/\<close> replaced by \<^verbatim>\<open>'$1 $2'\<close>. The first group is greedy: it takes
  the whole run of capitals, and gives back one character at a time, down to one character,
  until the second group matches behind it. \<open>acronym_backtrack n s\<close> tries the first group
  with \<open>n\<close> characters, then with fewer.
\<close>

fun acronym_backtrack :: "nat \<Rightarrow> string \<Rightarrow> (nat \<times> string) option" where
  "acronym_backtrack 0 s = None"
| "acronym_backtrack (Suc n) s =
     (case drop (Suc n) s of
        [] \<Rightarrow> acronym_backtrack n s
      | c # r \<Rightarrow>
          (let t = takeWhile cls_lower_digit r in
           if cls_upper c \<and> t \<noteq> []
           then Some (Suc n + 1 + length t, take (Suc n) s @ [CHR '' ''] @ c # t)
           else acronym_backtrack n s))"

definition re_acronym :: "string \<Rightarrow> (nat \<times> string) option" where
  "re_acronym s = acronym_backtrack (length (takeWhile cls_upper s)) s"

section \<open>\<^verbatim>\<open>String.prototype.split\<close>, \<^verbatim>\<open>replace\<close>, \<^verbatim>\<open>join\<close> and \<^verbatim>\<open>map\<close>\<close>

text \<open>
  \<^verbatim>\<open>split\<close> with a pattern: the text is scanned from the left; \<open>acc\<close> holds the characters
  since the end of the last separator. A match closes the piece and the scan goes on behind
  it; an empty match right at the start of a piece is skipped. The piece behind the last
  separator is returned too, so leading and trailing separators give empty pieces.
\<close>

function split_loop :: "(string \<Rightarrow> nat option) \<Rightarrow> string \<Rightarrow> string \<Rightarrow> string list" where
  "split_loop m acc [] = [acc]"
| "split_loop m acc (c # cs) =
     (case m (c # cs) of
        None \<Rightarrow> split_loop m (acc @ [c]) cs
      | Some n \<Rightarrow>
          if n = 0 then
            (if acc = [] then split_loop m [c] cs else acc # split_loop m [] (c # cs))
          else acc # split_loop m [] (drop n (c # cs)))"
  by pat_completeness auto
termination
  by (relation "measures [\<lambda>(m, acc, s). length s, \<lambda>(m, acc, s). length acc]") auto

definition split_re :: "(string \<Rightarrow> nat option) \<Rightarrow> string \<Rightarrow> string list" where
  "split_re m s = (if s = [] then (if m [] = None then [[]] else []) else split_loop m [] s)"

text \<open>
  \<^verbatim>\<open>replace\<close> with a global pattern: every match, from the left, not overlapping, is replaced;
  the text between the matches is copied.
\<close>

function replace_re :: "(string \<Rightarrow> (nat \<times> string) option) \<Rightarrow> string \<Rightarrow> string" where
  "replace_re m [] = (case m [] of None \<Rightarrow> [] | Some (n, r) \<Rightarrow> r)"
| "replace_re m (c # cs) =
     (case m (c # cs) of
        None \<Rightarrow> c # replace_re m cs
      | Some (n, r) \<Rightarrow>
          if n = 0 then r @ c # replace_re m cs else r @ replace_re m (drop n (c # cs)))"
  by pat_completeness auto
termination
  by (relation "measure (\<lambda>(m, s). length s)") auto

fun join :: "string \<Rightarrow> string list \<Rightarrow> string" where
  "join sep [] = []"
| "join sep [w] = w"
| "join sep (w # v # ws) = w @ sep @ join sep (v # ws)"

text \<open>\<^verbatim>\<open>words.map((word, idx) => ...)\<close>, the index counted from \<open>idx\<close>.\<close>

fun map_idx :: "('a \<Rightarrow> nat \<Rightarrow> 'b) \<Rightarrow> nat \<Rightarrow> 'a list \<Rightarrow> 'b list" where
  "map_idx f idx [] = []"
| "map_idx f idx (w # ws) = f w idx # map_idx f (Suc idx) ws"

text \<open>\<^verbatim>\<open>.filter(Boolean)\<close> on strings: the empty string is the only falsy one.\<close>

definition filter_Boolean :: "string list \<Rightarrow> string list" where
  "filter_Boolean ws = filter (\<lambda>w. w \<noteq> []) ws"

section \<open>camelCase\<close>

definition camel_words :: "string \<Rightarrow> string list" where
  "camel_words input = filter_Boolean (split_re re_non_alnum input)"

definition camel_word :: "string \<Rightarrow> nat \<Rightarrow> string" where
  "camel_word word idx =
     (if word = toUpperCase word then (if idx = 0 then toLowerCase word else word)
      else if idx = 0 then toLowerCase word
      else toUpperCase (take 1 word) @ toLowerCase (drop 1 word))"

definition camelCase :: "js_value \<Rightarrow> js_error + string" where
  "camelCase input =
     (if input = JSUndefined \<or> input = JSNull then Inr []
      else if typeof input \<noteq> ''string''
        then Inl (Error ''Input must be a string, undefined, or null.'')
      else
        (let words = camel_words (chars_of input) in
         if length words = 0 then Inr []
         else Inr (join [] (map_idx camel_word 0 words))))"

section \<open>dotCase and toKebabCase\<close>

definition delimiter_words :: "string \<Rightarrow> string list" where
  "delimiter_words input =
     filter_Boolean
       (split_re re_non_alnum_or_space
          (replace_re re_acronym (replace_re re_camel input)))"

definition dotCase :: "js_value \<Rightarrow> js_error + string" where
  "dotCase input =
     (if input = JSUndefined \<or> input = JSNull then Inr []
      else if typeof input \<noteq> ''string''
        then Inl (Error ''Input must be a string, undefined, or null.'')
      else Inr (join ''.'' (map toLowerCase (delimiter_words (chars_of input)))))"

definition toKebabCase :: "js_value \<Rightarrow> js_error + string" where
  "toKebabCase input =
     (if input = JSUndefined \<or> input = JSNull then Inr []
      else if typeof input \<noteq> ''string''
        then Inl (Error ''Input must be a string, undefined, or null.'')
      else Inr (join ''-'' (map toLowerCase (delimiter_words (chars_of input)))))"

section \<open>The toKebabCase of chain_prompt.js\<close>

definition chain_prompt_toKebabCase :: "js_value \<Rightarrow> js_error + string" where
  "chain_prompt_toKebabCase input =
     (if typeof input \<noteq> ''string'' then Inl (Error ''Invalid Input: expected a string.'')
      else Inr
        (replace_re (with_text ''-'' (re_run cls_space))
           (trim
              (replace_re (with_text '' '' (re_run cls_non_alnum))
                 (toLowerCase (trim (chars_of input)))))))"

section \<open>Words between the runs of a class\<close>

text \<open>
  The pieces of \<open>split_loop\<close> at the runs of a character class, the empty ones dropped:
  what both tokenizers compute behind their \<^verbatim>\<open>replace\<close> steps.
\<close>

abbreviation run_words :: "(char \<Rightarrow> bool) \<Rightarrow> string \<Rightarrow> string \<Rightarrow> string list" where
  "run_words P acc s \<equiv> filter_Boolean (split_loop (re_run P) acc s)"

section \<open>Facts about the character classes and the split patterns\<close>

lemmas cls_defs = cls_upper_def cls_lower_def cls_digit_def cls_lower_digit_def
  cls_non_alnum_def less_eq_char_def

lemma cls_space_non_alnum: "cls_space_underscore c \<Longrightarrow> cls_non_alnum c"
  by (auto simp: cls_space_underscore_def cls_space_def cls_defs)

lemma lower_char_alnum: "\<not> cls_non_alnum c \<Longrightarrow> cls_lower_digit (lower_char c)"
  by (auto simp: lower_char_def cls_defs of_char_of)

lemma lower_char_fix: "cls_lower_digit c \<Longrightarrow> lower_char c = c"
  by (auto simp: lower_char_def cls_defs)

lemma lower_digit_not_upper: "cls_lower_digit c \<Longrightarrow> \<not> cls_upper c"
  by (auto simp: cls_defs)

lemma lower_digit_alnum: "cls_lower_digit c \<Longrightarrow> \<not> cls_non_alnum c"
  by (auto simp: cls_defs)

lemma digit_upper_char: "cls_digit c \<Longrightarrow> upper_char c = c"
  by (auto simp: upper_char_def cls_defs)

lemma upper_upper_char: "cls_upper c \<Longrightarrow> upper_char c = c"
  by (auto simp: upper_char_def cls_defs)

declare split_loop.simps(2) [simp del]
declare replace_re.simps(2) [simp del]

lemma filter_Boolean_simps [simp]:
  "filter_Boolean [] = []"
  "filter_Boolean (w # ws) = (if w = [] then filter_Boolean ws else w # filter_Boolean ws)"
  "filter_Boolean (xs @ ys) = filter_Boolean xs @ filter_Boolean ys"
  by (simp_all add: filter_Boolean_def)

lemma re_run_sep: "P c \<Longrightarrow> re_run P (c # cs) = Some (Suc (length (takeWhile P cs)))"
  by (simp add: re_run_def)

lemma re_run_char: "\<not> P c \<Longrightarrow> re_run P (c # cs) = None"
  by (simp add: re_run_def)

lemma re_run_Nil: "re_run P [] = None"
  by (simp add: re_run_def)

lemma split_loop_sep:
  "P c \<Longrightarrow> split_loop (re_run P) acc (c # cs) = acc # split_loop (re_run P) [] (dropWhile P cs)"
  by (simp add: split_loop.simps(2) re_run_sep dropWhile_eq_drop)

lemma split_loop_char:
  "\<not> P c \<Longrightarrow> split_loop (re_run P) acc (c # cs) = split_loop (re_run P) (acc @ [c]) cs"
  by (simp add: split_loop.simps(2) re_run_char)

lemma split_re_run: "split_re (re_run P) s = split_loop (re_run P) [] s"
  by (simp add: split_re_def re_run_Nil)

lemma re_non_alnum_or_space_eq: "re_non_alnum_or_space = re_run cls_non_alnum"
proof
  fix s
  show "re_non_alnum_or_space s = re_run cls_non_alnum s"
  proof (cases s)
    case Nil
    then show ?thesis by (simp add: re_non_alnum_or_space_def re_alt_def re_run_def)
  next
    case (Cons c cs)
    then show ?thesis
      using cls_space_non_alnum [of c]
      by (cases "cls_non_alnum c") (auto simp: re_non_alnum_or_space_def re_alt_def re_run_def)
  qed
qed

section \<open>Splitting at runs of a class\<close>

lemma run_words_sep:
  assumes "P c"
  shows "run_words P acc (c # cs) = filter_Boolean [acc] @ run_words P [] cs"
proof -
  have "run_words P [] (dropWhile P cs) = run_words P [] cs"
  proof (cases cs)
    case Nil
    then show ?thesis by simp
  next
    case (Cons d ds)
    then show ?thesis
      by (cases "P d") (simp_all add: split_loop_sep)
  qed
  with assms show ?thesis
    by (simp add: split_loop_sep)
qed

lemma run_words_char: "\<not> P c \<Longrightarrow> run_words P acc (c # cs) = run_words P (acc @ [c]) cs"
  by (simp add: split_loop_char)

lemma run_words_word: "\<forall>c\<in>set w. \<not> P c \<Longrightarrow> run_words P acc (w @ s) = run_words P (acc @ w) s"
  by (induction w arbitrary: acc) (simp_all add: run_words_char)

lemma run_words_seps: "\<forall>c\<in>set seps. P c \<Longrightarrow> run_words P [] (seps @ s) = run_words P [] s"
  by (induction seps) (simp_all add: run_words_sep)

lemma run_words_all_sep: "\<forall>c\<in>set s. P c \<Longrightarrow> run_words P [] s = []"
  using run_words_seps [of s P "[]"] by simp

lemma run_words_first:
  assumes "\<forall>c\<in>set seps. P c" and "w \<noteq> []" and "\<forall>c\<in>set w. \<not> P c"
    and "rest = [] \<or> P (hd rest)"
  shows "run_words P [] (seps @ w @ rest) = w # run_words P [] rest"
proof -
  have "run_words P [] (seps @ w @ rest) = run_words P w rest"
    using assms(1,3) by (simp add: run_words_seps run_words_word)
  also have "\<dots> = w # run_words P [] rest"
  proof (cases rest)
    case Nil
    with assms(2) show ?thesis by simp
  next
    case (Cons c cs)
    with assms(4) have "P c" by simp
    with Cons assms(2) show ?thesis
      by (simp add: run_words_sep)
  qed
  finally show ?thesis .
qed

lemma run_words_props:
  "\<forall>c\<in>set acc. \<not> P c \<Longrightarrow> w \<in> set (run_words P acc s) \<Longrightarrow> w \<noteq> [] \<and> (\<forall>c\<in>set w. \<not> P c)"
proof (induction s arbitrary: acc)
  case Nil
  then show ?case by (auto split: if_splits)
next
  case (Cons c cs)
  show ?case
  proof (cases "P c")
    case True
    with Cons.prems(2) have "w \<in> set (filter_Boolean [acc]) \<or> w \<in> set (run_words P [] cs)"
      by (simp add: run_words_sep)
    then show ?thesis
    proof
      assume "w \<in> set (filter_Boolean [acc])"
      with Cons.prems(1) show ?thesis by (auto split: if_splits)
    next
      assume "w \<in> set (run_words P [] cs)"
      then show ?thesis using Cons.IH [of "[]"] by simp
    qed
  next
    case False
    with Cons.prems(2) have "w \<in> set (run_words P (acc @ [c]) cs)"
      by (simp add: run_words_char)
    moreover from False Cons.prems(1) have "\<forall>x\<in>set (acc @ [c]). \<not> P x" by simp
    ultimately show ?thesis using Cons.IH [of "acc @ [c]"] by blast
  qed
qed

lemma run_words_concat: "concat (run_words P acc s) = acc @ filter (\<lambda>c. \<not> P c) s"
proof (induction s arbitrary: acc)
  case Nil
  then show ?case by simp
next
  case (Cons c cs)
  then show ?case
    by (cases "P c") (simp_all add: run_words_sep run_words_char)
qed

lemma run_words_join:
  assumes "P d"
  shows "\<forall>w\<in>set ws. w \<noteq> [] \<and> (\<forall>c\<in>set w. \<not> P c) \<Longrightarrow> run_words P [] (join [d] ws) = ws"
proof (induction "[d]" ws rule: join.induct)
  case 1
  then show ?case by simp
next
  case (2 w)
  then show ?case
    using run_words_word [of w P "[]" "[]"] by simp
next
  case (3 w v ws)
  have "run_words P [] (join [d] (w # v # ws)) = run_words P w (d # join [d] (v # ws))"
    using 3(2) run_words_word [of w P "[]" "d # join [d] (v # ws)"] by simp
  also have "\<dots> = w # run_words P [] (join [d] (v # ws))"
    using assms 3(2) by (simp add: run_words_sep)
  also have "\<dots> = w # v # ws"
    using 3 by simp
  finally show ?case .
qed

section \<open>The boundary patterns\<close>

lemma re_camel_no_upper: "\<forall>c\<in>set s. \<not> cls_upper c \<Longrightarrow> re_camel s = None"
  by (cases s rule: re_camel.cases) simp_all

lemma acronym_backtrack_SomeD:
  "acronym_backtrack k s = Some (n, r) \<Longrightarrow>
   \<exists>j c x. 0 < j \<and> j \<le> k \<and> drop j s = c # x \<and> cls_upper c \<and>
     takeWhile cls_lower_digit x \<noteq> [] \<and>
     n = j + 1 + length (takeWhile cls_lower_digit x) \<and>
     r = take j s @ [CHR '' ''] @ c # takeWhile cls_lower_digit x"
proof (induction k)
  case 0
  then show ?case by simp
next
  case (Suc k)
  show ?case
  proof (cases "acronym_backtrack (Suc k) s = acronym_backtrack k s")
    case True
    with Suc obtain j c x where "0 < j \<and> j \<le> k \<and> drop j s = c # x \<and> cls_upper c \<and>
     takeWhile cls_lower_digit x \<noteq> [] \<and>
     n = j + 1 + length (takeWhile cls_lower_digit x) \<and>
     r = take j s @ [CHR '' ''] @ c # takeWhile cls_lower_digit x"
      by auto
    then have "0 < j \<and> j \<le> Suc k \<and> drop j s = c # x \<and> cls_upper c \<and>
     takeWhile cls_lower_digit x \<noteq> [] \<and>
     n = j + 1 + length (takeWhile cls_lower_digit x) \<and>
     r = take j s @ [CHR '' ''] @ c # takeWhile cls_lower_digit x"
      by simp
    then show ?thesis by blast
  next
    case False
    then obtain c x where d: "drop (Suc k) s = c # x" "cls_upper c"
      "takeWhile cls_lower_digit x \<noteq> []"
      by (auto simp: Let_def split: list.splits if_splits)
    with Suc.prems have "n = Suc k + 1 + length (takeWhile cls_lower_digit x) \<and>
      r = take (Suc k) s @ [CHR '' ''] @ c # takeWhile cls_lower_digit x"
      by (auto simp: Let_def)
    with d show ?thesis by blast
  qed
qed

lemma re_acronym_no_upper: "\<forall>c\<in>set s. \<not> cls_upper c \<Longrightarrow> re_acronym s = None"
  by (cases s) (simp_all add: re_acronym_def)

lemma replace_camel_no_upper: "\<forall>c\<in>set s. \<not> cls_upper c \<Longrightarrow> replace_re re_camel s = s"
  by (induction s) (simp_all add: replace_re.simps(2) re_camel_no_upper)

lemma replace_acronym_no_upper: "\<forall>c\<in>set s. \<not> cls_upper c \<Longrightarrow> replace_re re_acronym s = s"
  by (induction s) (simp_all add: replace_re.simps(2) re_acronym_no_upper)

lemma takeWhile_run:
  assumes "\<forall>c\<in>set xs. P c" and "ys = [] \<or> \<not> P (hd ys)"
  shows "takeWhile P (xs @ ys) = xs" and "dropWhile P (xs @ ys) = ys"
  using assms by (induction xs) (auto simp: takeWhile_eq_Nil_iff dropWhile_eq_self_iff)

lemma re_acronym_match:
  assumes "g \<noteq> []" and "\<forall>c\<in>set g. cls_upper c" and "cls_upper u"
    and "t \<noteq> []" and "\<forall>c\<in>set t. cls_lower_digit c"
    and "rest = [] \<or> \<not> cls_lower_digit (hd rest)"
  shows "re_acronym (g @ u # t @ rest) = Some (length g + 1 + length t, g @ [CHR '' ''] @ u # t)"
proof -
  from assms(4,5) have t: "\<not> cls_upper (hd (t @ rest))" "t @ rest \<noteq> []"
    by (cases t; simp add: lower_digit_not_upper)+
  have "takeWhile cls_upper (g @ u # t @ rest) = g @ [u]"
    using takeWhile_run(1) [of "g @ [u]" cls_upper "t @ rest"] assms(2,3) t by simp
  then have "re_acronym (g @ u # t @ rest) = acronym_backtrack (Suc (length g)) (g @ u # t @ rest)"
    by (simp add: re_acronym_def)
  also have "\<dots> = acronym_backtrack (length g) (g @ u # t @ rest)"
    using t by (cases "t @ rest") auto
  also have "\<dots> = Some (length g + 1 + length t, g @ [CHR '' ''] @ u # t)"
    using assms(1,3,4) takeWhile_run(1) [OF assms(5,6)]
    by (cases g) (simp_all add: Let_def)
  finally show ?thesis .
qed

lemma replace_acronym_match:
  assumes "g \<noteq> []" and "\<forall>c\<in>set g. cls_upper c" and "cls_upper u"
    and "t \<noteq> []" and "\<forall>c\<in>set t. cls_lower_digit c"
    and "rest = [] \<or> \<not> cls_lower_digit (hd rest)"
  shows "replace_re re_acronym (g @ u # t @ rest) =
         g @ [CHR '' ''] @ u # t @ replace_re re_acronym rest"
proof -
  obtain a g' where g: "g = a # g'" using assms(1) by (cases g) auto
  have "drop (length g + 1 + length t) (g @ u # t @ rest) = rest" by simp
  then show ?thesis
    using re_acronym_match [OF assms] unfolding g
    by (simp add: replace_re.simps(2))
qed

lemma re_acronym_SomeD:
  assumes "re_acronym s = Some (n, r)"
  shows "\<exists>g u t rest. s = g @ u # t @ rest \<and> g \<noteq> [] \<and> (\<forall>c\<in>set g. cls_upper c) \<and> cls_upper u \<and>
           t \<noteq> [] \<and> (\<forall>c\<in>set t. cls_lower_digit c) \<and> (rest = [] \<or> \<not> cls_lower_digit (hd rest)) \<and>
           n = length g + 1 + length t \<and> r = g @ [CHR '' ''] @ u # t"
proof -
  from assms obtain j c x where j: "0 < j" "j \<le> length (takeWhile cls_upper s)"
    "drop j s = c # x" "cls_upper c" "takeWhile cls_lower_digit x \<noteq> []"
    "n = j + 1 + length (takeWhile cls_lower_digit x)"
    "r = take j s @ [CHR '' ''] @ c # takeWhile cls_lower_digit x"
    unfolding re_acronym_def using acronym_backtrack_SomeD by blast
  let ?g = "take j s" and ?t = "takeWhile cls_lower_digit x" and ?rest = "dropWhile cls_lower_digit x"
  have "s = ?g @ drop j s" by simp
  then have s: "s = ?g @ c # ?t @ ?rest" using j(3) by simp
  have len: "j \<le> length s" using j(2) length_takeWhile_le [of cls_upper s] by linarith
  have "take j (xs @ ys) = take j xs" if "j \<le> length xs" for xs ys :: string
    using that by simp
  from this [of "takeWhile cls_upper s" "dropWhile cls_upper s"] j(2)
  have g: "?g = take j (takeWhile cls_upper s)" by simp
  have up: "\<forall>c\<in>set ?g. cls_upper c"
    unfolding g by (auto dest: in_set_takeD set_takeWhileD)
  have ne: "?g \<noteq> []" using j(1) len j(3) by auto
  have r: "?rest = [] \<or> \<not> cls_lower_digit (hd ?rest)"
    using hd_dropWhile [of cls_lower_digit x] by blast
  have lo: "\<forall>c\<in>set ?t. cls_lower_digit c" by (auto dest: set_takeWhileD)
  have lg: "length ?g = j" using len by simp
  show ?thesis
  proof (intro exI conjI)
    show "s = ?g @ c # ?t @ ?rest" by (rule s)
    show "?g \<noteq> []" by (rule ne)
    show "\<forall>c\<in>set ?g. cls_upper c" by (rule up)
    show "cls_upper c" by (rule j(4))
    show "?t \<noteq> []" by (rule j(5))
    show "\<forall>c\<in>set ?t. cls_lower_digit c" by (rule lo)
    show "?rest = [] \<or> \<not> cls_lower_digit (hd ?rest)" by (rule r)
    show "n = length ?g + 1 + length ?t" unfolding lg by (rule j(6))
    show "r = ?g @ [CHR '' ''] @ c # ?t" by (rule j(7))
  qed
qed

lemma set_join: "set (join sep ws) \<subseteq> set sep \<union> \<Union> (set ` set ws)"
  by (induction sep ws rule: join.induct) auto

lemma join_Nil: "join [] ws = concat ws"
  by (induction "[] :: string" ws rule: join.induct) auto

lemma map_join:
  "map f (join sep ws) = join (map f sep) (map (map f) ws)"
  by (induction sep ws rule: join.induct) auto

lemma words_of_camel: "camel_words s = run_words cls_non_alnum [] s"
  by (simp add: camel_words_def re_non_alnum_def split_re_run)

lemma words_of_delimiter:
  "delimiter_words s = run_words cls_non_alnum [] (replace_re re_acronym (replace_re re_camel s))"
  by (simp add: delimiter_words_def re_non_alnum_or_space_eq split_re_run)

lemma map_idx_nth: "map_idx f k ws = map (\<lambda>i. f (ws ! i) (k + i)) [0..<length ws]"
proof (induction ws arbitrary: k)
  case Nil
  then show ?case by simp
next
  case (Cons w ws)
  have "[0..<length (w # ws)] = 0 # map Suc [0..<length ws]"
    by (simp add: upt_conv_Cons map_Suc_upt del: upt_Suc)
  then show ?case using Cons [of "Suc k"] by (simp add: comp_def del: upt_Suc)
qed

section \<open>Words of dotCase and toKebabCase\<close>

lemma non_alnum_not_upper: "cls_non_alnum c \<Longrightarrow> \<not> cls_upper c"
  by (simp add: cls_non_alnum_def)

lemma delimiter_words_no_upper:
  "\<forall>c\<in>set s. \<not> cls_upper c \<Longrightarrow> delimiter_words s = run_words cls_non_alnum [] s"
  by (simp add: words_of_delimiter replace_camel_no_upper replace_acronym_no_upper)

lemma delimiter_words_alnum:
  "w \<in> set (delimiter_words s) \<Longrightarrow> w \<noteq> [] \<and> (\<forall>c\<in>set w. \<not> cls_non_alnum c)"
  unfolding words_of_delimiter using run_words_props [of "[]" cls_non_alnum w] by simp

lemma camel_words_alnum:
  "w \<in> set (camel_words s) \<Longrightarrow> w \<noteq> [] \<and> (\<forall>c\<in>set w. \<not> cls_non_alnum c)"
  unfolding words_of_camel using run_words_props [of "[]" cls_non_alnum w] by simp

lemma lower_words:
  assumes "w \<in> set (map toLowerCase (delimiter_words s))"
  shows "w \<noteq> [] \<and> (\<forall>c\<in>set w. cls_lower_digit c)"
proof -
  from assms obtain v where v: "v \<in> set (delimiter_words s)" "w = toLowerCase v" by auto
  with delimiter_words_alnum [of v s] show ?thesis
    by (auto simp: toLowerCase_def lower_char_alnum)
qed

lemma toLowerCase_fix: "\<forall>c\<in>set w. cls_lower_digit c \<Longrightarrow> toLowerCase w = w"
  by (simp add: toLowerCase_def lower_char_fix map_idI)

lemma delimiter_words_join:
  assumes d: "cls_non_alnum d"
    and ws: "\<forall>w\<in>set ws. w \<noteq> [] \<and> (\<forall>c\<in>set w. cls_lower_digit c)"
  shows "map toLowerCase (delimiter_words (join [d] ws)) = ws"
proof -
  have "\<forall>c\<in>set (join [d] ws). \<not> cls_upper c"
  proof
    fix c assume "c \<in> set (join [d] ws)"
    with set_join [of "[d]" ws] have "c = d \<or> (\<exists>w\<in>set ws. c \<in> set w)" by auto
    with d ws show "\<not> cls_upper c"
      by (auto simp: non_alnum_not_upper lower_digit_not_upper)
  qed
  then have "delimiter_words (join [d] ws) = run_words cls_non_alnum [] (join [d] ws)"
    by (rule delimiter_words_no_upper)
  also have "\<dots> = ws"
    using d ws run_words_join [of cls_non_alnum d ws] by (auto simp: lower_digit_alnum)
  finally have "delimiter_words (join [d] ws) = ws" .
  moreover have "map toLowerCase ws = ws"
    using ws by (simp add: toLowerCase_fix map_idI)
  ultimately show ?thesis by simp
qed

lemma toUpperCase_upper_digit: "\<forall>c\<in>set w. cls_upper c \<or> cls_digit c \<Longrightarrow> toUpperCase w = w"
  unfolding toUpperCase_def by (rule map_idI) (auto simp: digit_upper_char upper_upper_char)

lemma re_acronym_iff:
  "re_acronym s = Some (n, r) \<longleftrightarrow>
     (\<exists>g u t rest. s = g @ u # t @ rest \<and> g \<noteq> [] \<and> list_all cls_upper g \<and> cls_upper u \<and>
        t \<noteq> [] \<and> list_all cls_lower_digit t \<and> (rest = [] \<or> \<not> cls_lower_digit (hd rest)) \<and>
        n = length g + 1 + length t \<and> r = g @ [CHR '' ''] @ u # t)"
  (is "?l \<longleftrightarrow> ?r")
proof
  assume ?l
  from re_acronym_SomeD [OF this] show ?r unfolding list_all_iff .
next
  assume ?r
  then obtain g u t rest where h: "s = g @ u # t @ rest" "g \<noteq> []" "\<forall>c\<in>set g. cls_upper c"
    "cls_upper u" "t \<noteq> []" "\<forall>c\<in>set t. cls_lower_digit c"
    "rest = [] \<or> \<not> cls_lower_digit (hd rest)"
    "n = length g + 1 + length t" "r = g @ [CHR '' ''] @ u # t"
    unfolding list_all_iff by blast
  from re_acronym_match [OF h(2-7)] h(1,8,9) show ?l by simp
qed

lemma replace_camel_match:
  "cls_lower_digit a \<Longrightarrow> cls_upper b \<Longrightarrow>
   replace_re re_camel (a # b # cs) = a # CHR '' '' # b # replace_re re_camel cs"
  by (simp add: replace_re.simps(2))

lemma replace_no_match:
  "m (c # cs) = None \<Longrightarrow> replace_re m (c # cs) = c # replace_re m cs"
  by (simp add: replace_re.simps(2))

section \<open>The boundary patterns behind any prefix\<close>

lemma re_camel_iff:
  "re_camel s = Some (n, r) \<longleftrightarrow>
     (\<exists>a b cs. s = a # b # cs \<and> cls_lower_digit a \<and> cls_upper b \<and>
        n = 2 \<and> r = [a, CHR '' '', b])"
  by (cases s rule: re_camel.cases) auto

lemma replace_camel_prefix:
  assumes "cls_lower_digit d" and "cls_upper u"
  shows "replace_re re_camel (p @ d # u # cs) =
         replace_re re_camel p @ d # CHR '' '' # u # replace_re re_camel cs"
proof (induction p rule: induct_list012)
  case 1
  show ?case using assms by (simp add: replace_camel_match)
next
  case (2 a)
  have "\<not> cls_upper d" using assms(1) by (rule lower_digit_not_upper)
  then show ?case using assms by (simp add: replace_re.simps(2) replace_camel_match)
next
  case (3 a b p)
  show ?case
  proof (cases "cls_lower_digit a \<and> cls_upper b")
    case True
    then have "replace_re re_camel (a # b # xs) = a # CHR '' '' # b # replace_re re_camel xs" for xs
      by (simp add: replace_camel_match)
    from this [of "p @ d # u # cs"] this [of p] 3(1) show ?thesis by simp
  next
    case False
    then have "re_camel (a # b # xs) = None" for xs by auto
    then have "replace_re re_camel (a # b # xs) = a # replace_re re_camel (b # xs)" for xs
      by (rule replace_no_match)
    from this [of "p @ d # u # cs"] this [of p] 3(2) show ?thesis by simp
  qed
qed

lemma takeWhile_append_stop:
  "F \<noteq> [] \<Longrightarrow> \<not> P (hd F) \<Longrightarrow> takeWhile P (q @ F) = takeWhile P q"
  by (induction q) (auto simp: takeWhile_eq_Nil_iff)

lemma acronym_backtrack_append:
  "k < length p \<Longrightarrow> F \<noteq> [] \<Longrightarrow> \<not> cls_lower_digit (hd F) \<Longrightarrow>
   acronym_backtrack k (p @ F) = acronym_backtrack k p"
proof (induction k)
  case 0
  then show ?case by simp
next
  case (Suc k)
  from Suc.prems(1) obtain c x where d: "drop (Suc k) p = c # x"
    by (cases "drop (Suc k) p") auto
  from Suc.prems(1) have "drop (Suc k) (p @ F) = drop (Suc k) p @ F" by simp
  with d have dF: "drop (Suc k) (p @ F) = c # x @ F" by simp
  have t: "takeWhile cls_lower_digit (x @ F) = takeWhile cls_lower_digit x"
    using Suc.prems(2,3) by (rule takeWhile_append_stop)
  have tk: "take (Suc k) (p @ F) = take (Suc k) p" using Suc.prems(1) by simp
  have ih: "acronym_backtrack k (p @ F) = acronym_backtrack k p"
    using Suc by simp
  show ?case
    by (simp only: acronym_backtrack.simps dF d list.case Let_def t tk ih)
qed

lemma re_acronym_append:
  assumes "\<not> (\<forall>c\<in>set p. cls_upper c)" and "F \<noteq> []" and "cls_upper (hd F)"
  shows "re_acronym (p @ F) = re_acronym p"
proof -
  from assms(1) obtain c where c: "c \<in> set p" "\<not> cls_upper c" by blast
  then have tw: "takeWhile cls_upper (p @ F) = takeWhile cls_upper p"
    by (simp add: takeWhile_append1)
  have "length (takeWhile cls_upper p) < length p"
  proof (rule ccontr)
    assume "\<not> length (takeWhile cls_upper p) < length p"
    with length_takeWhile_le [of cls_upper p] have "length (takeWhile cls_upper p) = length p"
      by linarith
    then have "takeWhile cls_upper p = p"
      by (metis takeWhile_eq_take take_all order_refl)
    then have "\<forall>c\<in>set p. cls_upper c" by (metis set_takeWhileD)
    with assms(1) show False by blast
  qed
  moreover have "\<not> cls_lower_digit (hd F)"
    using assms(3) lower_digit_not_upper by blast
  ultimately show ?thesis
    unfolding re_acronym_def tw using assms(2) by (intro acronym_backtrack_append)
qed

lemma replace_acronym_upper:
  "\<forall>c\<in>set p. cls_upper c \<Longrightarrow> replace_re re_acronym p = p"
proof (induction p)
  case Nil
  then show ?case by (simp add: re_acronym_def)
next
  case (Cons c p)
  have "re_acronym (c # p) = None"
  proof (cases "re_acronym (c # p)")
    case None
    then show ?thesis .
  next
    case (Some nr)
    obtain n r where "nr = (n, r)" by (cases nr)
    with Some re_acronym_SomeD [of "c # p" n r]
    obtain g u t rest where h: "c # p = g @ u # t @ rest" "t \<noteq> []" "\<forall>c\<in>set t. cls_lower_digit c"
      by blast
    from h(2) have "hd t \<in> set t" by simp
    moreover from this h(1) have "hd t \<in> set (c # p)"
      by (metis Un_iff list.set_intros(2) set_append)
    ultimately have "cls_lower_digit (hd t)" "cls_upper (hd t)"
      using h(3) Cons.prems by blast+
    then show ?thesis using lower_digit_not_upper by blast
  qed
  with Cons show ?case by (simp add: replace_no_match)
qed

lemma replace_acronym_prefix:
  assumes "g \<noteq> []" and "\<forall>c\<in>set g. cls_upper c" and "cls_upper u"
    and "t \<noteq> []" and "\<forall>c\<in>set t. cls_lower_digit c"
    and "rest = [] \<or> \<not> cls_lower_digit (hd rest)"
  shows "replace_re re_acronym (p @ g @ u # t @ rest) =
         replace_re re_acronym p @ g @ [CHR '' ''] @ u # t @ replace_re re_acronym rest"
proof (induction "length p" arbitrary: p rule: less_induct)
  case less
  let ?F = "g @ u # t @ rest"
  have F: "replace_re re_acronym ?F = g @ [CHR '' ''] @ u # t @ replace_re re_acronym rest"
    using assms by (rule replace_acronym_match)
  have hdF: "?F \<noteq> []" "cls_upper (hd ?F)"
    using assms(1,2) by (cases g; simp)+
  show ?case
  proof (cases "\<forall>c\<in>set p. cls_upper c")
    case True
    then have "replace_re re_acronym p = p" by (rule replace_acronym_upper)
    moreover have "replace_re re_acronym ((p @ g) @ u # t @ rest) =
        (p @ g) @ [CHR '' ''] @ u # t @ replace_re re_acronym rest"
      using True assms by (intro replace_acronym_match) auto
    ultimately show ?thesis by simp
  next
    case False
    then obtain c p' where p: "p = c # p'" by (cases p) auto
    have eq: "re_acronym (p @ ?F) = re_acronym p"
      using False hdF by (rule re_acronym_append)
    show ?thesis
    proof (cases "re_acronym p")
      case None
      with eq have "replace_re re_acronym (p @ ?F) = c # replace_re re_acronym (p' @ ?F)"
        unfolding p by (simp add: replace_re.simps(2))
      moreover have "replace_re re_acronym p = c # replace_re re_acronym p'"
        using None unfolding p by (simp add: replace_re.simps(2))
      moreover have "replace_re re_acronym (p' @ ?F) =
          replace_re re_acronym p' @ g @ [CHR '' ''] @ u # t @ replace_re re_acronym rest"
        using less [of p'] p by simp
      ultimately show ?thesis by simp
    next
      case (Some nr)
      obtain n r where nr: "nr = (n, r)" by (cases nr)
      from Some nr re_acronym_SomeD [of p n r]
      obtain g' u' t' rest' where h: "p = g' @ u' # t' @ rest'" "n = length g' + 1 + length t'"
        by blast
      then have n: "0 < n" "n \<le> length p" by simp_all
      have step: "replace_re re_acronym (c # xs) = r @ replace_re re_acronym (drop n (c # xs))"
        if "re_acronym (c # xs) = Some (n, r)" for xs
        using that n(1) by (simp add: replace_re.simps(2))
      have dr: "drop n (p @ ?F) = drop n p @ ?F" using n(2) by simp
      have "replace_re re_acronym (p @ ?F) = r @ replace_re re_acronym (drop n (p @ ?F))"
        using step [of "p' @ ?F"] eq Some nr unfolding p by simp
      then have "replace_re re_acronym (p @ ?F) = r @ replace_re re_acronym (drop n p @ ?F)"
        unfolding dr .
      moreover have "replace_re re_acronym p = r @ replace_re re_acronym (drop n p)"
        using step [of p'] Some nr unfolding p by simp
      moreover have "replace_re re_acronym (drop n p @ ?F) =
          replace_re re_acronym (drop n p) @ g @ [CHR '' ''] @ u # t @ replace_re re_acronym rest"
        using less [of "drop n p"] n p by simp
      ultimately show ?thesis by simp
    qed
  qed
qed

section \<open>Claims\<close>

subsection \<open>Validation of the argument\<close>

text \<open>
  C1. camelCase, dotCase and the toKebabCase beside them return the empty string for
  \<^verbatim>\<open>undefined\<close> and for \<^verbatim>\<open>null\<close>; every other value that is not a string raises the error;
  a string never raises and goes on to the tokenizer, so these are the only failures and
  the only results decided by the checks.
\<close>

theorem validation_absent_or_text:
  "camelCase JSUndefined = Inr [] \<and> camelCase JSNull = Inr [] \<and>
   dotCase JSUndefined = Inr [] \<and> dotCase JSNull = Inr [] \<and>
   toKebabCase JSUndefined = Inr [] \<and> toKebabCase JSNull = Inr [] \<and>
   (v \<noteq> JSUndefined \<and> v \<noteq> JSNull \<and> typeof v \<noteq> ''string'' \<longrightarrow>
      camelCase v = Inl (Error ''Input must be a string, undefined, or null.'') \<and>
      dotCase v = Inl (Error ''Input must be a string, undefined, or null.'') \<and>
      toKebabCase v = Inl (Error ''Input must be a string, undefined, or null.'')) \<and>
   (typeof v = ''string'' \<longrightarrow>
      camelCase v = Inr (join [] (map_idx camel_word 0 (camel_words (chars_of v)))) \<and>
      dotCase v = Inr (join ''.'' (map toLowerCase (delimiter_words (chars_of v)))) \<and>
      toKebabCase v = Inr (join ''-'' (map toLowerCase (delimiter_words (chars_of v))))) \<and>
   ((\<exists>e. camelCase v = Inl e) = (v \<noteq> JSUndefined \<and> v \<noteq> JSNull \<and> typeof v \<noteq> ''string'')) \<and>
   ((\<exists>e. dotCase v = Inl e) = (v \<noteq> JSUndefined \<and> v \<noteq> JSNull \<and> typeof v \<noteq> ''string'')) \<and>
   ((\<exists>e. toKebabCase v = Inl e) = (v \<noteq> JSUndefined \<and> v \<noteq> JSNull \<and> typeof v \<noteq> ''string''))"
  by (cases v) (auto simp: camelCase_def dotCase_def toKebabCase_def Let_def)

theorem validation_absent_or_text_witness:
  "typeof (JSNumber 42) \<noteq> ''string'' \<and>
   camelCase (JSNumber 42) = Inl (Error ''Input must be a string, undefined, or null.'') \<and>
   dotCase (JSArray []) = Inl (Error ''Input must be a string, undefined, or null.'') \<and>
   toKebabCase (JSBoolean True) = Inl (Error ''Input must be a string, undefined, or null.'') \<and>
   typeof (JSString ''Andy Nguyen'') = ''string'' \<and>
   (\<nexists>e. camelCase (JSString ''Andy Nguyen'') = Inl e)"
  using validation_absent_or_text [of "JSNumber 42"] validation_absent_or_text [of "JSArray []"]
    validation_absent_or_text [of "JSBoolean True"]
    validation_absent_or_text [of "JSString ''Andy Nguyen''"]
  by simp

text \<open>
  C7. The toKebabCase of chain_prompt.js raises the error for every value that is not a
  string, \<^verbatim>\<open>undefined\<close> and \<^verbatim>\<open>null\<close> among them: it has no empty result for an absent
  argument.
\<close>

theorem chain_prompt_rejects_non_text:
  "(typeof v \<noteq> ''string'' \<longrightarrow>
      chain_prompt_toKebabCase v = Inl (Error ''Invalid Input: expected a string.'')) \<and>
   chain_prompt_toKebabCase JSUndefined = Inl (Error ''Invalid Input: expected a string.'') \<and>
   chain_prompt_toKebabCase JSNull = Inl (Error ''Invalid Input: expected a string.'') \<and>
   chain_prompt_toKebabCase JSUndefined \<noteq> Inr [] \<and>
   chain_prompt_toKebabCase JSNull \<noteq> Inr []"
  by (simp add: chain_prompt_toKebabCase_def)

theorem chain_prompt_rejects_non_text_witness:
  "typeof (JSNumber 7) \<noteq> ''string'' \<and>
   chain_prompt_toKebabCase (JSNumber 7) = Inl (Error ''Invalid Input: expected a string.'') \<and>
   chain_prompt_toKebabCase (JSArray [JSString ''a'']) =
     Inl (Error ''Invalid Input: expected a string.'')"
  using chain_prompt_rejects_non_text [of "JSNumber 7"]
    chain_prompt_rejects_non_text [of "JSArray [JSString ''a'']"]
  by simp

subsection \<open>The two kebab-case functions\<close>

text \<open>
  C6. The toKebabCase of chain_prompt.js turns \<^verbatim>\<open>andy_nguyen+AWS\<close> into
  \<^verbatim>\<open>andy-nguyen-aws\<close> and leaves \<^verbatim>\<open>andyNguyenAWS\<close> one word, \<^verbatim>\<open>andynguyenaws\<close>; the
  toKebabCase beside dotCase splits that input, so the two functions disagree on it.
\<close>

theorem kebab_implementations_differ:
  "chain_prompt_toKebabCase (JSString ''andy_nguyen+AWS'') = Inr ''andy-nguyen-aws'' \<and>
   chain_prompt_toKebabCase (JSString ''andyNguyenAWS'') = Inr ''andynguyenaws'' \<and>
   toKebabCase (JSString ''andyNguyenAWS'') = Inr ''andy-nguyen-aws'' \<and>
   chain_prompt_toKebabCase (JSString ''andyNguyenAWS'') \<noteq>
     toKebabCase (JSString ''andyNguyenAWS'') \<and>
   (\<exists>s. chain_prompt_toKebabCase (JSString s) \<noteq> toKebabCase (JSString s))"
proof -
  have a: "chain_prompt_toKebabCase (JSString ''andy_nguyen+AWS'') = Inr ''andy-nguyen-aws''"
    by code_simp
  have b: "chain_prompt_toKebabCase (JSString ''andyNguyenAWS'') = Inr ''andynguyenaws''"
    by code_simp
  have c: "toKebabCase (JSString ''andyNguyenAWS'') = Inr ''andy-nguyen-aws''"
    by code_simp
  have d: "chain_prompt_toKebabCase (JSString ''andyNguyenAWS'') \<noteq>
      toKebabCase (JSString ''andyNguyenAWS'')"
    unfolding b c by simp
  from a b c d show ?thesis by blast
qed

subsection \<open>dotCase and toKebabCase on their own output\<close>

text \<open>
  C5. dotCase and the toKebabCase beside it are idempotent: on every string they return a
  text on which they return the same text again.
\<close>

theorem dotCase_toKebabCase_idempotent:
  "(\<exists>t. dotCase (JSString s) = Inr t \<and> dotCase (JSString t) = Inr t) \<and>
   (\<exists>t. toKebabCase (JSString s) = Inr t \<and> toKebabCase (JSString t) = Inr t)"
proof -
  let ?ws = "map toLowerCase (delimiter_words s)"
  have ws: "\<forall>w\<in>set ?ws. w \<noteq> [] \<and> (\<forall>c\<in>set w. cls_lower_digit c)"
    using lower_words by blast
  have dot: "cls_non_alnum CHR ''.''" and dash: "cls_non_alnum CHR ''-''"
    by (simp_all add: cls_defs)
  have "dotCase (JSString (join ''.'' ?ws)) = Inr (join ''.'' ?ws)"
    using delimiter_words_join [OF dot ws] by (simp add: dotCase_def)
  moreover have "toKebabCase (JSString (join ''-'' ?ws)) = Inr (join ''-'' ?ws)"
    using delimiter_words_join [OF dash ws] by (simp add: toKebabCase_def)
  ultimately show ?thesis by (simp add: dotCase_def toKebabCase_def)
qed

theorem dotCase_toKebabCase_idempotent_witness:
  "dotCase (JSString ''fooBar_AWSData 2x'') = Inr ''foo.bar.aws.data.2x'' \<and>
   dotCase (JSString ''foo.bar.aws.data.2x'') = Inr ''foo.bar.aws.data.2x'' \<and>
   toKebabCase (JSString ''fooBar_AWSData 2x'') = Inr ''foo-bar-aws-data-2x'' \<and>
   toKebabCase (JSString ''foo-bar-aws-data-2x'') = Inr ''foo-bar-aws-data-2x''"
proof -
  have a: "dotCase (JSString ''fooBar_AWSData 2x'') = Inr ''foo.bar.aws.data.2x''" by code_simp
  have b: "toKebabCase (JSString ''fooBar_AWSData 2x'') = Inr ''foo-bar-aws-data-2x''" by code_simp
  show ?thesis
    using dotCase_toKebabCase_idempotent [of "''fooBar_AWSData 2x''"] unfolding a b by simp
qed

text \<open>
  C9. On every string dotCase and the toKebabCase beside it join the same lower-cased
  words, the one with a dot and the other with a hyphen: putting a hyphen for every dot of
  the result of dotCase gives the result of toKebabCase.
\<close>

theorem dotCase_toKebabCase_separator:
  "dotCase (JSString s) = Inr (join ''.'' (map toLowerCase (delimiter_words s))) \<and>
   toKebabCase (JSString s) = Inr (join ''-'' (map toLowerCase (delimiter_words s))) \<and>
   (\<exists>d. dotCase (JSString s) = Inr d \<and>
        toKebabCase (JSString s) = Inr (map (\<lambda>c. if c = CHR ''.'' then CHR ''-'' else c) d))"
proof -
  let ?ws = "map toLowerCase (delimiter_words s)"
  let ?f = "\<lambda>c. if c = CHR ''.'' then CHR ''-'' else c"
  have w: "map ?f w = w" if "w \<in> set ?ws" for w
  proof -
    have "\<forall>c\<in>set w. c \<noteq> CHR ''.''"
      using lower_words [OF that] by (auto simp: cls_defs)
    then show ?thesis by (simp add: map_idI)
  qed
  have ws: "map (map ?f) ?ws = ?ws"
    by (rule map_idI) (rule w)
  have "map ?f (join ''.'' ?ws) = join (map ?f ''.'') (map (map ?f) ?ws)"
    by (rule map_join)
  also have "\<dots> = join ''-'' ?ws"
    unfolding ws by simp
  finally show ?thesis by (simp add: dotCase_def toKebabCase_def)
qed

theorem dotCase_toKebabCase_separator_witness:
  "dotCase (JSString ''API_response Data'') = Inr ''api.response.data'' \<and>
   toKebabCase (JSString ''API_response Data'') =
     Inr (map (\<lambda>c. if c = CHR ''.'' then CHR ''-'' else c) ''api.response.data'')"
proof -
  have a: "dotCase (JSString ''API_response Data'') = Inr ''api.response.data''" by code_simp
  from dotCase_toKebabCase_separator [of "''API_response Data''"]
  obtain d where d: "dotCase (JSString ''API_response Data'') = Inr d"
    "toKebabCase (JSString ''API_response Data'') =
       Inr (map (\<lambda>c. if c = CHR ''.'' then CHR ''-'' else c) d)"
    by blast
  from d(1) a have "d = ''api.response.data''" by simp
  with d(2) a show ?thesis by simp
qed

subsection \<open>Strings without a letter or digit\<close>

text \<open>
  C10. On a string without a letter or digit, the empty string among them, camelCase,
  dotCase and the toKebabCase beside them return the empty string and raise nothing.
\<close>

theorem no_alnum_gives_empty:
  "(list_all cls_non_alnum s \<longrightarrow>
      camelCase (JSString s) = Inr [] \<and> dotCase (JSString s) = Inr [] \<and>
      toKebabCase (JSString s) = Inr []) \<and>
   camelCase (JSString []) = Inr [] \<and> dotCase (JSString []) = Inr [] \<and>
   toKebabCase (JSString []) = Inr []"
proof -
  have "camel_words s = [] \<and> delimiter_words s = []" if "list_all cls_non_alnum s" for s
  proof -
    from that have s: "\<forall>c\<in>set s. cls_non_alnum c" by (simp add: list_all_iff)
    then have "\<forall>c\<in>set s. \<not> cls_upper c" by (simp add: non_alnum_not_upper)
    then show ?thesis
      using s by (simp add: words_of_camel delimiter_words_no_upper run_words_all_sep)
  qed
  from this [of s] this [of "[]"] show ?thesis
    by (simp add: camelCase_def dotCase_def toKebabCase_def)
qed

theorem no_alnum_gives_empty_witness:
  "list_all cls_non_alnum ''_- +!'' \<and> camelCase (JSString ''_- +!'') = Inr [] \<and>
   dotCase (JSString ''_- +!'') = Inr [] \<and> toKebabCase (JSString ''_- +!'') = Inr []"
proof -
  have h: "list_all cls_non_alnum ''_- +!''" by (simp add: cls_defs)
  show ?thesis using no_alnum_gives_empty [of "''_- +!''"] h by simp
qed

subsection \<open>camelCase\<close>

text \<open>
  C8. camelCase splits every string at the maximal runs of characters that are neither
  letters nor digits and at nothing else: a run of letters and digits between two such
  runs (or the ends of the text) is one word, whatever its case; the words come in the
  order of the text and hold all its letters and digits; no word is empty.
\<close>

theorem camel_words_maximal_runs:
  "(list_all cls_non_alnum seps \<and> w \<noteq> [] \<and> list_all (\<lambda>c. \<not> cls_non_alnum c) w \<and>
      (rest = [] \<or> cls_non_alnum (hd rest)) \<longrightarrow>
      camel_words (seps @ w @ rest) = w # camel_words rest) \<and>
   (list_all cls_non_alnum s \<longrightarrow> camel_words s = []) \<and>
   concat (camel_words s) = filter (\<lambda>c. \<not> cls_non_alnum c) s \<and>
   list_all (\<lambda>w. w \<noteq> [] \<and> list_all (\<lambda>c. \<not> cls_non_alnum c) w) (camel_words s) \<and>
   camel_words ''nguyen2023'' = [''nguyen2023''] \<and> camel_words ''AWS'' = [''AWS''] \<and>
   camel_words ''--andy__nguyen2023  AWS!'' = [''andy'', ''nguyen2023'', ''AWS'']"
proof -
  have first: "camel_words (seps @ w @ rest) = w # camel_words rest"
    if "list_all cls_non_alnum seps" "w \<noteq> []" "list_all (\<lambda>c. \<not> cls_non_alnum c) w"
      "rest = [] \<or> cls_non_alnum (hd rest)"
    using that run_words_first [of seps cls_non_alnum w rest]
    by (simp add: words_of_camel list_all_iff)
  have none: "camel_words s = []" if "list_all cls_non_alnum s"
    using that by (simp add: words_of_camel run_words_all_sep list_all_iff)
  have chars: "concat (camel_words s) = filter (\<lambda>c. \<not> cls_non_alnum c) s"
    by (simp add: words_of_camel run_words_concat)
  have alnum: "list_all (\<lambda>w. w \<noteq> [] \<and> list_all (\<lambda>c. \<not> cls_non_alnum c) w) (camel_words s)"
    using camel_words_alnum [of _ s] by (simp add: list_all_iff)
  have e1: "camel_words ''nguyen2023'' = [''nguyen2023'']" by code_simp
  have e2: "camel_words ''AWS'' = [''AWS'']" by code_simp
  have e3: "camel_words ''--andy__nguyen2023  AWS!'' = [''andy'', ''nguyen2023'', ''AWS'']"
    by code_simp
  from first none chars alnum e1 e2 e3 show ?thesis by blast
qed

theorem camel_words_maximal_runs_witness:
  "list_all cls_non_alnum ''+ '' \<and> list_all (\<lambda>c. \<not> cls_non_alnum c) ''nguyen2023'' \<and>
   camel_words (''+ '' @ ''nguyen2023'' @ ''__AWS'') = ''nguyen2023'' # camel_words ''__AWS'' \<and>
   list_all cls_non_alnum ''_ -'' \<and> camel_words ''_ -'' = []"
proof -
  have h: "list_all cls_non_alnum ''+ ''" "list_all (\<lambda>c. \<not> cls_non_alnum c) ''nguyen2023''"
    "cls_non_alnum (hd ''__AWS'')" "list_all cls_non_alnum ''_ -''"
    by (simp_all add: cls_defs)
  show ?thesis
    using h camel_words_maximal_runs [of "''+ ''" "''nguyen2023''" "''__AWS''" "''_ -''"]
    by simp
qed

text \<open>
  C2. On every string camelCase concatenates its words, without a separator, after this
  rule on the word at index i: a word equal to its upper-case form is lower-cased at
  index 0 and kept as it is elsewhere; any other word is lower-cased at index 0 and
  elsewhere gets its first character upper-cased and the rest lower-cased. A word of
  capitals and digits equals its upper-case form. camelCase of \<^verbatim>\<open>Andy Nguyen AWS\<close> is
  \<^verbatim>\<open>andyNguyenAWS\<close>.
\<close>

theorem camelCase_word_rule:
  "camelCase (JSString s) =
     Inr (concat (map (\<lambda>i. let word = camel_words s ! i in
                        if word = toUpperCase word then (if i = 0 then toLowerCase word else word)
                        else if i = 0 then toLowerCase word
                        else upper_char (hd word) # toLowerCase (tl word))
                   [0..<length (camel_words s)])) \<and>
   (list_all (\<lambda>c. cls_upper c \<or> cls_digit c) w \<longrightarrow> w = toUpperCase w) \<and>
   camelCase (JSString ''Andy Nguyen AWS'') = Inr ''andyNguyenAWS''"
proof -
  let ?rule = "\<lambda>i. let word = camel_words s ! i in
                        if word = toUpperCase word then (if i = 0 then toLowerCase word else word)
                        else if i = 0 then toLowerCase word
                        else upper_char (hd word) # toLowerCase (tl word)"
  have word: "camel_word (camel_words s ! i) i = ?rule i" if "i < length (camel_words s)" for i
  proof -
    from that have "camel_words s ! i \<in> set (camel_words s)" by simp
    then have "camel_words s ! i \<noteq> []" using camel_words_alnum by blast
    then obtain c cs where "camel_words s ! i = c # cs" by (cases "camel_words s ! i") auto
    then show ?thesis by (simp add: camel_word_def Let_def toUpperCase_def)
  qed
  have "join [] (map_idx camel_word 0 (camel_words s)) =
        concat (map (\<lambda>i. camel_word (camel_words s ! i) i) [0..<length (camel_words s)])"
    by (simp add: join_Nil map_idx_nth)
  also have "\<dots> = concat (map ?rule [0..<length (camel_words s)])"
    using word by (intro arg_cong [where f = concat] map_cong) simp_all
  finally have rule: "camelCase (JSString s) = Inr (concat (map ?rule [0..<length (camel_words s)]))"
    by (cases "camel_words s = []") (simp_all add: camelCase_def Let_def)
  have acr: "w = toUpperCase w" if "list_all (\<lambda>c. cls_upper c \<or> cls_digit c) w"
    using that toUpperCase_upper_digit [of w] by (simp add: list_all_iff)
  have ex: "camelCase (JSString ''Andy Nguyen AWS'') = Inr ''andyNguyenAWS''" by code_simp
  from rule acr ex show ?thesis by blast
qed

theorem camelCase_word_rule_witness:
  "camelCase (JSString ''API_response+data AWS 2023'') = Inr ''apiResponseDataAWS2023'' \<and>
   list_all (\<lambda>c. cls_upper c \<or> cls_digit c) ''K9'' \<and> ''K9'' = toUpperCase ''K9''"
proof -
  have h: "list_all (\<lambda>c. cls_upper c \<or> cls_digit c) ''K9''" by (simp add: cls_defs)
  have r: "concat (map (\<lambda>i. let word = camel_words ''API_response+data AWS 2023'' ! i in
                        if word = toUpperCase word then (if i = 0 then toLowerCase word else word)
                        else if i = 0 then toLowerCase word
                        else upper_char (hd word) # toLowerCase (tl word))
                   [0..<length (camel_words ''API_response+data AWS 2023'')]) =
           ''apiResponseDataAWS2023''"
    by code_simp
  show ?thesis
    using camelCase_word_rule [of "''API_response+data AWS 2023''" "''K9''"] h
    unfolding r by simp
qed

subsection \<open>The boundary steps of dotCase and toKebabCase\<close>

text \<open>
  C3, as the code has it. The pattern of the second \<^verbatim>\<open>replace\<close> matches at the start of a text
  exactly when the text starts with one or more capitals, then a capital, then one or more
  lower-case letters or digits; the match ends with the longest such run and the space is
  put before that last capital. Where the pattern matches, the text is rewritten so and the
  scan goes on behind the match; where it does not, the character is copied. One capital
  before a capital and a lower-case letter or digit is enough: it gets the boundary behind
  it. \<^verbatim>\<open>AWSFoo\<close> gives the words \<^verbatim>\<open>AWS\<close>, \<^verbatim>\<open>Foo\<close>, and \<^verbatim>\<open>ABc\<close> gives \<^verbatim>\<open>A\<close>, \<^verbatim>\<open>Bc\<close>.
\<close>

theorem acronym_boundary:
  "(re_acronym s = Some (n, r)) =
     (\<exists>g u t rest. s = g @ u # t @ rest \<and> g \<noteq> [] \<and> list_all cls_upper g \<and> cls_upper u \<and>
        t \<noteq> [] \<and> list_all cls_lower_digit t \<and> (rest = [] \<or> \<not> cls_lower_digit (hd rest)) \<and>
        n = length g + 1 + length t \<and> r = g @ [CHR '' ''] @ u # t) \<and>
   (g \<noteq> [] \<and> list_all cls_upper g \<and> cls_upper u \<and> t \<noteq> [] \<and> list_all cls_lower_digit t \<and>
      (rest = [] \<or> \<not> cls_lower_digit (hd rest)) \<longrightarrow>
      replace_re re_acronym (g @ u # t @ rest) =
        g @ [CHR '' ''] @ u # t @ replace_re re_acronym rest) \<and>
   (re_acronym (c # cs) = None \<longrightarrow>
      replace_re re_acronym (c # cs) = c # replace_re re_acronym cs) \<and>
   (cls_upper a \<and> cls_upper u \<and> cls_lower_digit l \<longrightarrow>
      replace_re re_acronym (a # u # l # cs) =
        a # CHR '' '' # u # l # takeWhile cls_lower_digit cs @
          replace_re re_acronym (dropWhile cls_lower_digit cs)) \<and>
   delimiter_words ''AWSFoo'' = [''AWS'', ''Foo''] \<and> delimiter_words ''ABc'' = [''A'', ''Bc'']"
proof -
  have m: "replace_re re_acronym (g @ u # t @ rest) =
             g @ [CHR '' ''] @ u # t @ replace_re re_acronym rest"
    if "g \<noteq> []" "list_all cls_upper g" "cls_upper u" "t \<noteq> []" "list_all cls_lower_digit t"
      "rest = [] \<or> \<not> cls_lower_digit (hd rest)" for g u t rest
    using that replace_acronym_match [of g u t rest] by (simp add: list_all_iff)
  have single: "replace_re re_acronym (a # u # l # cs) =
        a # CHR '' '' # u # l # takeWhile cls_lower_digit cs @
          replace_re re_acronym (dropWhile cls_lower_digit cs)"
    if "cls_upper a" "cls_upper u" "cls_lower_digit l"
  proof -
    have "list_all cls_lower_digit (l # takeWhile cls_lower_digit cs)"
      using that(3) by (auto simp: list_all_iff dest: set_takeWhileD)
    moreover have "dropWhile cls_lower_digit cs = [] \<or>
        \<not> cls_lower_digit (hd (dropWhile cls_lower_digit cs))"
      using hd_dropWhile [of cls_lower_digit cs] by blast
    ultimately show ?thesis
      using that m [of "[a]" u "l # takeWhile cls_lower_digit cs" "dropWhile cls_lower_digit cs"]
      by simp
  qed
  have e1: "delimiter_words ''AWSFoo'' = [''AWS'', ''Foo'']" by code_simp
  have e2: "delimiter_words ''ABc'' = [''A'', ''Bc'']" by code_simp
  show ?thesis
    using re_acronym_iff [of s n r] m [of g u t rest] replace_no_match [of re_acronym c cs]
      single e1 e2
    by blast
qed

theorem acronym_boundary_witness:
  "list_all cls_upper ''AWS'' \<and> cls_upper CHR ''F'' \<and> list_all cls_lower_digit ''oo'' \<and>
   replace_re re_acronym (''AWS'' @ CHR ''F'' # ''oo'' @ ''_x'') = ''AWS Foo_x'' \<and>
   re_acronym ''_x'' = None \<and> replace_re re_acronym ''_x'' = ''_x'' \<and>
   cls_upper CHR ''A'' \<and> cls_upper CHR ''B'' \<and> cls_lower_digit CHR ''c'' \<and>
   replace_re re_acronym ''ABcd-'' = ''A Bcd-''"
proof -
  have h: "list_all cls_upper ''AWS''" "cls_upper CHR ''F''" "list_all cls_lower_digit ''oo''"
    "\<not> cls_lower_digit (hd ''_x'')" "cls_upper CHR ''A''" "cls_upper CHR ''B''"
    "cls_lower_digit CHR ''c''"
    by (simp_all add: cls_defs)
  have n: "re_acronym ''_x'' = None" by code_simp
  have x: "replace_re re_acronym ''x'' = ''x''" by code_simp
  have y: "replace_re re_acronym ''-'' = ''-''" by code_simp
  have d: "takeWhile cls_lower_digit ''d-'' = ''d''" "dropWhile cls_lower_digit ''d-'' = ''-''"
    by (simp_all add: cls_defs)
  show ?thesis
    using h n x y d
      acronym_boundary [where g = "''AWS''" and u = "CHR ''F''" and t = "''oo''" and rest = "''_x''"
        and c = "CHR ''_''" and cs = "''x''" and a = "CHR ''A''" and l = "CHR ''c''"]
      acronym_boundary [where u = "CHR ''B''" and a = "CHR ''A''" and l = "CHR ''c''"
        and cs = "''d-''" and g = "[]"]
    by simp
qed

text \<open>
  The first group of the pattern is \<^verbatim>\<open>[A-Z]+\<close>, one or more: in \<^verbatim>\<open>ABc\<close> the single capital
  \<^verbatim>\<open>A\<close> stands before the pair \<^verbatim>\<open>Bc\<close> and a boundary is put behind it.
\<close>

theorem acronym_boundary_counterexample:
  "replace_re re_acronym ''ABc'' = ''A Bc'' \<and> delimiter_words ''ABc'' = [''A'', ''Bc''] \<and>
   dotCase (JSString ''ABc'') = Inr ''a.bc'' \<and> toKebabCase (JSString ''ABc'') = Inr ''a-bc''"
proof -
  have a: "replace_re re_acronym ''ABc'' = ''A Bc''" by code_simp
  have b: "delimiter_words ''ABc'' = [''A'', ''Bc'']" by code_simp
  have c: "dotCase (JSString ''ABc'') = Inr ''a.bc''" by code_simp
  have d: "toKebabCase (JSString ''ABc'') = Inr ''a-bc''" by code_simp
  from a b c d show ?thesis by blast
qed

text \<open>
  C4, as the code has it. Digits take part in both boundary steps, anywhere in the text.
  The pattern of the first \<^verbatim>\<open>replace\<close> matches exactly at a lower-case letter or digit
  before a capital, and a digit before a capital gets a space behind it whatever stands in
  front of it. In the pattern of the second \<^verbatim>\<open>replace\<close> the class behind the capital of the
  second group is \<^verbatim>\<open>[a-z0-9]\<close>: one or more capitals, a capital and then digits only are
  split before that capital, whatever stands in front of them. Where a pattern does not
  match, the character is copied and the scan goes on. \<^verbatim>\<open>AWS2\<close> becomes \<^verbatim>\<open>AW S2\<close> and
  gives the words \<^verbatim>\<open>AW\<close>, \<^verbatim>\<open>S2\<close>; \<^verbatim>\<open>xAWS2\<close> gives \<^verbatim>\<open>x\<close>, \<^verbatim>\<open>AW\<close>, \<^verbatim>\<open>S2\<close> and \<^verbatim>\<open>a7Xy\<close>
  gives \<^verbatim>\<open>a7\<close>, \<^verbatim>\<open>Xy\<close>.
\<close>

theorem digits_in_both_steps:
  "(re_camel s = Some (n, r)) =
     (\<exists>a b cs. s = a # b # cs \<and> (cls_lower a \<or> cls_digit a) \<and> cls_upper b \<and>
        n = 2 \<and> r = [a, CHR '' '', b]) \<and>
   (cls_digit d \<and> cls_upper u \<longrightarrow>
      replace_re re_camel (d # u # cs) = d # CHR '' '' # u # replace_re re_camel cs \<and>
      replace_re re_camel (p @ d # u # cs) =
        replace_re re_camel p @ d # CHR '' '' # u # replace_re re_camel cs) \<and>
   (re_camel (c # cs) = None \<longrightarrow>
      replace_re re_camel (c # cs) = c # replace_re re_camel cs) \<and>
   (re_acronym s = Some (n, r)) =
     (\<exists>g u t rest. s = g @ u # t @ rest \<and> g \<noteq> [] \<and> list_all cls_upper g \<and> cls_upper u \<and>
        t \<noteq> [] \<and> list_all (\<lambda>c. cls_lower c \<or> cls_digit c) t \<and>
        (rest = [] \<or> \<not> (cls_lower (hd rest) \<or> cls_digit (hd rest))) \<and>
        n = length g + 1 + length t \<and> r = g @ [CHR '' ''] @ u # t) \<and>
   (g \<noteq> [] \<and> list_all cls_upper g \<and> cls_upper u \<and> ds \<noteq> [] \<and> list_all cls_digit ds \<and>
      (rest = [] \<or> \<not> cls_lower_digit (hd rest)) \<longrightarrow>
      re_acronym (g @ u # ds @ rest) =
        Some (length g + 1 + length ds, g @ [CHR '' ''] @ u # ds) \<and>
      replace_re re_acronym (g @ u # ds @ rest) =
        g @ [CHR '' ''] @ u # ds @ replace_re re_acronym rest \<and>
      replace_re re_acronym (p @ g @ u # ds @ rest) =
        replace_re re_acronym p @ g @ [CHR '' ''] @ u # ds @ replace_re re_acronym rest) \<and>
   (re_acronym (c # cs) = None \<longrightarrow>
      replace_re re_acronym (c # cs) = c # replace_re re_acronym cs) \<and>
   replace_re re_camel [] = [] \<and> replace_re re_acronym [] = [] \<and>
   replace_re re_acronym ''AWS2'' = ''AW S2'' \<and> delimiter_words ''AWS2'' = [''AW'', ''S2''] \<and>
   delimiter_words ''xAWS2'' = [''x'', ''AW'', ''S2''] \<and>
   delimiter_words ''a7Xy'' = [''a7'', ''Xy'']"
proof -
  have camel: "(re_camel s = Some (n, r)) =
     (\<exists>a b cs. s = a # b # cs \<and> (cls_lower a \<or> cls_digit a) \<and> cls_upper b \<and>
        n = 2 \<and> r = [a, CHR '' '', b])"
    using re_camel_iff [of s n r] by (simp add: cls_lower_digit_def)
  have one: "replace_re re_camel (d # u # cs) = d # CHR '' '' # u # replace_re re_camel cs \<and>
      replace_re re_camel (p @ d # u # cs) =
        replace_re re_camel p @ d # CHR '' '' # u # replace_re re_camel cs"
    if "cls_digit d" "cls_upper u"
  proof -
    from that(1) have "cls_lower_digit d" by (simp add: cls_lower_digit_def)
    with that(2) show ?thesis
      using replace_camel_prefix [of d u p cs] by (simp add: replace_camel_match)
  qed
  have acr: "(re_acronym s = Some (n, r)) =
     (\<exists>g u t rest. s = g @ u # t @ rest \<and> g \<noteq> [] \<and> list_all cls_upper g \<and> cls_upper u \<and>
        t \<noteq> [] \<and> list_all (\<lambda>c. cls_lower c \<or> cls_digit c) t \<and>
        (rest = [] \<or> \<not> (cls_lower (hd rest) \<or> cls_digit (hd rest))) \<and>
        n = length g + 1 + length t \<and> r = g @ [CHR '' ''] @ u # t)"
    using re_acronym_iff [of s n r] unfolding cls_lower_digit_def .
  have two: "re_acronym (g @ u # ds @ rest) =
        Some (length g + 1 + length ds, g @ [CHR '' ''] @ u # ds) \<and>
      replace_re re_acronym (g @ u # ds @ rest) =
        g @ [CHR '' ''] @ u # ds @ replace_re re_acronym rest \<and>
      replace_re re_acronym (p @ g @ u # ds @ rest) =
        replace_re re_acronym p @ g @ [CHR '' ''] @ u # ds @ replace_re re_acronym rest"
    if "g \<noteq> []" "list_all cls_upper g" "cls_upper u" "ds \<noteq> []" "list_all cls_digit ds"
      "rest = [] \<or> \<not> cls_lower_digit (hd rest)"
  proof -
    from that(5) have ld: "\<forall>c\<in>set ds. cls_lower_digit c"
      by (simp add: list_all_iff cls_lower_digit_def)
    from that(2) have up: "\<forall>c\<in>set g. cls_upper c" by (simp add: list_all_iff)
    show ?thesis
      using re_acronym_match [OF that(1) up that(3,4) ld that(6)]
        replace_acronym_match [OF that(1) up that(3,4) ld that(6)]
        replace_acronym_prefix [OF that(1) up that(3,4) ld that(6), of p]
      by simp
  qed
  have nil: "replace_re re_camel [] = []" "replace_re re_acronym [] = []"
    by (simp_all add: re_acronym_def)
  have e1: "replace_re re_acronym ''AWS2'' = ''AW S2''" by code_simp
  have e2: "delimiter_words ''AWS2'' = [''AW'', ''S2'']" by code_simp
  have e3: "delimiter_words ''xAWS2'' = [''x'', ''AW'', ''S2'']" by code_simp
  have e4: "delimiter_words ''a7Xy'' = [''a7'', ''Xy'']" by code_simp
  show ?thesis
    using camel one replace_no_match [of re_camel c cs] acr two
      replace_no_match [of re_acronym c cs] nil e1 e2 e3 e4
    by blast
qed

theorem digits_in_both_steps_witness:
  "cls_digit CHR ''7'' \<and> cls_upper CHR ''X'' \<and>
   replace_re re_camel ''7Xy'' = ''7 Xy'' \<and>
   replace_re re_camel (''_a'' @ CHR ''7'' # CHR ''X'' # ''y'') = ''_a7 Xy'' \<and>
   re_camel ''_y'' = None \<and> replace_re re_camel ''_y'' = ''_y'' \<and>
   list_all cls_upper ''HTT'' \<and> cls_upper CHR ''P'' \<and> list_all cls_digit ''20'' \<and>
   re_acronym (''HTT'' @ CHR ''P'' # ''20'' @ ''-x'') = Some (6, ''HTT P20'') \<and>
   replace_re re_acronym (''HTT'' @ CHR ''P'' # ''20'' @ ''-x'') = ''HTT P20-x'' \<and>
   replace_re re_acronym (''_a'' @ ''HTT'' @ CHR ''P'' # ''20'' @ ''-x'') = ''_aHTT P20-x'' \<and>
   re_acronym ''-x'' = None \<and> replace_re re_acronym ''-x'' = ''-x''"
proof -
  have h: "cls_digit CHR ''7''" "cls_upper CHR ''X''" "list_all cls_upper ''HTT''"
    "cls_upper CHR ''P''" "list_all cls_digit ''20''" "\<not> cls_lower_digit (hd ''-x'')"
    by (simp_all add: cls_defs)
  have ev: "replace_re re_camel ''y'' = ''y''" "replace_re re_camel ''_a'' = ''_a''"
    "replace_re re_acronym ''x'' = ''x''" "replace_re re_acronym ''_a'' = ''_a''"
    "re_camel ''_y'' = None" "re_acronym ''-x'' = None"
    by code_simp+
  note w1 = digits_in_both_steps [where s = "[]" and n = 0 and r = "[]" and d = "CHR ''7''"
      and u = "CHR ''X''" and cs = "''y''" and p = "''_a''" and c = "CHR ''_''" and g = "[]"
      and ds = "[]" and rest = "[]"]
  note w2 = digits_in_both_steps [where s = "[]" and n = 0 and r = "[]" and d = "CHR ''7''"
      and u = "CHR ''P''" and cs = "''x''" and p = "''_a''" and c = "CHR ''-''"
      and g = "''HTT''" and ds = "''20''" and rest = "''-x''"]
  from w1 [THEN conjunct2, THEN conjunct1] h(1,2)
  have a: "replace_re re_camel (CHR ''7'' # CHR ''X'' # ''y'') =
        CHR ''7'' # CHR '' '' # CHR ''X'' # replace_re re_camel ''y'' \<and>
      replace_re re_camel (''_a'' @ CHR ''7'' # CHR ''X'' # ''y'') =
        replace_re re_camel ''_a'' @ CHR ''7'' # CHR '' '' # CHR ''X'' # replace_re re_camel ''y''"
    by blast
  from w1 [THEN conjunct2, THEN conjunct2, THEN conjunct1] ev(5)
  have b: "replace_re re_camel (CHR ''_'' # ''y'') = CHR ''_'' # replace_re re_camel ''y''"
    by blast
  from w2 [THEN conjunct2, THEN conjunct2, THEN conjunct2, THEN conjunct2, THEN conjunct1] h(3-6)
  have c: "re_acronym (''HTT'' @ CHR ''P'' # ''20'' @ ''-x'') =
        Some (length ''HTT'' + 1 + length ''20'', ''HTT'' @ [CHR '' ''] @ CHR ''P'' # ''20'') \<and>
      replace_re re_acronym (''HTT'' @ CHR ''P'' # ''20'' @ ''-x'') =
        ''HTT'' @ [CHR '' ''] @ CHR ''P'' # ''20'' @ replace_re re_acronym ''-x'' \<and>
      replace_re re_acronym (''_a'' @ ''HTT'' @ CHR ''P'' # ''20'' @ ''-x'') =
        replace_re re_acronym ''_a'' @ ''HTT'' @ [CHR '' ''] @ CHR ''P'' # ''20'' @
          replace_re re_acronym ''-x''"
    by blast
  from w2 [THEN conjunct2, THEN conjunct2, THEN conjunct2, THEN conjunct2, THEN conjunct2,
      THEN conjunct1] ev(6)
  have d: "replace_re re_acronym (CHR ''-'' # ''x'') = CHR ''-'' # replace_re re_acronym ''x''"
    by blast
  from a b c d ev h show ?thesis by simp
qed

text \<open>
  The second step splits \<^verbatim>\<open>AWS2\<close>, capitals followed by a capital and a digit.
\<close>

theorem digits_in_acronym_step_counterexample:
  "replace_re re_acronym ''AWS2'' = ''AW S2'' \<and> replace_re re_acronym ''AWS2'' \<noteq> ''AWS2'' \<and>
   delimiter_words ''AWS2'' = [''AW'', ''S2''] \<and> dotCase (JSString ''AWS2'') = Inr ''aw.s2'' \<and>
   toKebabCase (JSString ''AWS2'') = Inr ''aw-s2''"
proof -
  have a: "replace_re re_acronym ''AWS2'' = ''AW S2''" by code_simp
  have b: "delimiter_words ''AWS2'' = [''AW'', ''S2'']" by code_simp
  have c: "dotCase (JSString ''AWS2'') = Inr ''aw.s2''" by code_simp
  have d: "toKebabCase (JSString ''AWS2'') = Inr ''aw-s2''" by code_simp
  have e: "replace_re re_acronym ''AWS2'' \<noteq> ''AWS2''" unfolding a by simp
  from a b c d e show ?thesis by blast
qed

end
